theory Spec2Isabelle
  imports Main
begin

section \<open>Python strings\<close>

text \<open>
  A Python \<open>str\<close> is a \<^typ>\<open>string\<close>: one \<^typ>\<open>char\<close> per code point, for the code
  points below 256. \<open>len\<close> is \<^const>\<open>length\<close>, the slice \<open>s[:n]\<close> is \<^const>\<open>take\<close>,
  \<open>+\<close> is \<open>@\<close>.
\<close>

text \<open>\<open>str.isspace\<close> on one code point below 256.\<close>

definition isspace :: "char \<Rightarrow> bool" where
  "isspace c =
     (let n = (of_char c :: nat)
      in (9 \<le> n \<and> n \<le> 13) \<or> (28 \<le> n \<and> n \<le> 32) \<or> n = 133 \<or> n = 160)"

text \<open>\<open>s.strip()\<close>: whitespace removed at both ends.\<close>

definition strip :: "string \<Rightarrow> string" where
  "strip s = rev (dropWhile isspace (rev (dropWhile isspace s)))"

text \<open>\<open>s.lower()\<close>, code point by code point (the capitals of ASCII and of Latin-1).\<close>

definition lower_char :: "char \<Rightarrow> char" where
  "lower_char c =
     (let n = (of_char c :: nat)
      in if (65 \<le> n \<and> n \<le> 90) \<or> (192 \<le> n \<and> n \<le> 222 \<and> n \<noteq> 215)
         then char_of (n + 32) else c)"

definition lower :: "string \<Rightarrow> string" where
  "lower s = map lower_char s"

text \<open>\<open>s.startswith(p)\<close>.\<close>

fun startswith :: "string \<Rightarrow> string \<Rightarrow> bool" where
  "startswith s [] = True"
| "startswith [] (p # ps) = False"
| "startswith (c # cs) (p # ps) = (c = p \<and> startswith cs ps)"

text \<open>\<open>sub in s\<close>: \<open>sub\<close> occurs in \<open>s\<close> as a contiguous run.\<close>

fun str_in :: "string \<Rightarrow> string \<Rightarrow> bool" where
  "str_in sub [] = (sub = [])"
| "str_in sub (c # cs) = (startswith (c # cs) sub \<or> str_in sub cs)"

text \<open>\<open>s.count(c)\<close> for a one-character \<open>c\<close>.\<close>

definition str_count :: "string \<Rightarrow> char \<Rightarrow> nat" where
  "str_count s c = length (filter (\<lambda>d. d = c) s)"

text \<open>\<open>sep.join(parts)\<close>.\<close>

fun join :: "string \<Rightarrow> string list \<Rightarrow> string" where
  "join sep [] = []"
| "join sep [x] = x"
| "join sep (x # y # ys) = x @ sep @ join sep (y # ys)"

text \<open>The whitespace-separated tokens of a string (how the parser splits a \<open>class\<close> value).\<close>

fun split_ws :: "string \<Rightarrow> string \<Rightarrow> string list" where
  "split_ws cur [] = (if cur = [] then [] else [cur])"
| "split_ws cur (c # cs) =
     (if isspace c then (if cur = [] then split_ws [] cs else cur # split_ws [] cs)
      else split_ws (cur @ [c]) cs)"

section \<open>The parsed document\<close>

text \<open>
  What \<open>BeautifulSoup(response.content, 'html.parser')\<close> builds: a tree of tags, each with
  its name, its attribute dictionary (an association list read with \<^const>\<open>map_of\<close>) and its
  contents, and of the text strings that \<open>get_text\<close> counts. The root is the soup object,
  a tag named \<open>[document]\<close> that is the parent of the top-level nodes.
\<close>

datatype node = Text string | Element string "(string \<times> string) list" "node list"

definition BeautifulSoup :: "node list \<Rightarrow> node" where
  "BeautifulSoup cs = Element ''[document]'' [] cs"

fun tag_name :: "node \<Rightarrow> string option" where
  "tag_name (Text s) = None"
| "tag_name (Element t a cs) = Some t"

text \<open>\<open>tag.get(k)\<close>: the attribute's value, or \<open>None\<close>.\<close>

fun tag_get :: "node \<Rightarrow> string \<Rightarrow> string option" where
  "tag_get (Text s) k = None"
| "tag_get (Element t a cs) k = map_of a k"

text \<open>
  The descendants of a node in document order, each paired with its parent
  (\<open>find_parent\<close> of the second component is the first).
\<close>

fun walk :: "node \<Rightarrow> (node \<times> node) list" where
  "walk (Text s) = []"
| "walk (Element t a cs) = concat (map (\<lambda>c. (Element t a cs, c) # walk c) cs)"

definition descendants :: "node \<Rightarrow> node list" where
  "descendants n = map snd (walk n)"

text \<open>A tag whose name is one of \<open>names\<close>.\<close>

definition named :: "string list \<Rightarrow> node \<Rightarrow> bool" where
  "named names n = (case tag_name n of None \<Rightarrow> False | Some t \<Rightarrow> t \<in> set names)"

text \<open>\<open>tag.find_all(names)\<close> and \<open>tag.find(names)\<close>.\<close>

definition find_all :: "node \<Rightarrow> string list \<Rightarrow> node list" where
  "find_all n names = filter (named names) (descendants n)"

definition find_first :: "node \<Rightarrow> string list \<Rightarrow> node option" where
  "find_first n names = List.find (named names) (descendants n)"

text \<open>The strings under a node, in document order.\<close>

fun all_strings :: "node \<Rightarrow> string list" where
  "all_strings (Text s) = [s]"
| "all_strings (Element t a cs) = concat (map all_strings cs)"

text \<open>\<open>tag.get_text()\<close>: the strings joined with nothing between them.\<close>

definition get_text :: "node \<Rightarrow> string" where
  "get_text n = concat (all_strings n)"

text \<open>
  \<open>tag.get_text(strip=True)\<close>: every string is stripped on its own, the empty ones are
  dropped, and the rest are joined with nothing between them.
\<close>

definition get_text_strip :: "node \<Rightarrow> string" where
  "get_text_strip n = concat (filter (\<lambda>s. s \<noteq> []) (map strip (all_strings n)))"

section \<open>Locating the latest section\<close>

text \<open>Strategy 1 (lines 69-72): the parent of the first \<open>h1\<close>, \<open>h2\<close>, \<open>h3\<close> or \<open>div\<close> whose
  stripped, lower-cased text is \<open>latest\<close>.\<close>

definition is_latest_heading :: "node \<Rightarrow> bool" where
  "is_latest_heading h =
     (named [''h1'', ''h2'', ''h3'', ''div''] h \<and> lower (strip (get_text h)) = ''latest'')"

definition strategy1 :: "node \<Rightarrow> node option" where
  "strategy1 soup =
     (case List.find (\<lambda>(p, h). is_latest_heading h) (walk soup) of
        None \<Rightarrow> None
      | Some (p, h) \<Rightarrow> Some p)"

text \<open>
  Strategy 2 (line 76): the first \<open>section\<close> or \<open>div\<close> whose \<open>class\<close> passes
  \<open>lambda x: x and 'latest' in x.lower()\<close>. The library applies the function to every
  class of the tag, then to the classes joined by one space; a tag with no \<open>class\<close>
  gives the function \<open>None\<close>.
\<close>

definition class_latest :: "string \<Rightarrow> bool" where
  "class_latest x = (x \<noteq> [] \<and> str_in ''latest'' (lower x))"

definition class_matches :: "node \<Rightarrow> bool" where
  "class_matches n =
     (case tag_get n ''class'' of
        None \<Rightarrow> False
      | Some v \<Rightarrow>
          (let classes = split_ws [] v
           in list_ex class_latest classes \<or> class_latest (join '' '' classes)))"

definition strategy2 :: "node \<Rightarrow> node option" where
  "strategy2 soup =
     List.find (\<lambda>n. named [''section'', ''div''] n \<and> class_matches n) (descendants soup)"

text \<open>
  Strategy 3 (lines 80-83): at the first \<open>h1\<close>, \<open>h2\<close> or \<open>h3\<close> whose lower-cased text
  contains \<open>latest\<close>, \<open>find_next\<close> gives the first \<open>section\<close>, \<open>div\<close> or \<open>article\<close>
  after it in document order (possibly none), and the loop breaks.
\<close>

fun strategy3_scan :: "node list \<Rightarrow> node option" where
  "strategy3_scan [] = None"
| "strategy3_scan (elem # after) =
     (if named [''h1'', ''h2'', ''h3''] elem \<and> str_in ''latest'' (lower (get_text elem))
      then List.find (named [''section'', ''div'', ''article'']) after
      else strategy3_scan after)"

definition strategy3 :: "node \<Rightarrow> node option" where
  "strategy3 soup = strategy3_scan (descendants soup)"

text \<open>Lines 66-83: each later strategy runs only if \<open>latest_section\<close> is still \<open>None\<close>
  (a tag is always true in a condition).\<close>

definition find_latest_section :: "node \<Rightarrow> node option" where
  "find_latest_section soup =
     (case strategy1 soup of
        Some sec \<Rightarrow> Some sec
      | None \<Rightarrow>
          (case strategy2 soup of
             Some sec \<Rightarrow> Some sec
           | None \<Rightarrow> strategy3 soup))"

section \<open>Collecting the article links\<close>

definition base_url :: string where
  "base_url = ''https://crypto.news''"

text \<open>\<open>latest_section.find_all('a', href=True)\<close>, each link read as \<open>link['href']\<close>.\<close>

definition link_hrefs :: "node \<Rightarrow> string list" where
  "link_hrefs sec =
     List.map_filter (\<lambda>n. if named [''a''] n then tag_get n ''href'' else None)
       (descendants sec)"

text \<open>Lines 91-92.\<close>

definition full_url :: "string \<Rightarrow> string" where
  "full_url href = (if startswith href ''/'' then base_url @ href else href)"

definition excluded :: "string list" where
  "excluded = [''/category/'', ''/tag/'', ''/author/'', ''#'',
               ''/buy-crypto/'', ''/events/'', ''/meme-coins/'']"

text \<open>Lines 95-99.\<close>

definition valid_article_url :: "string \<Rightarrow> string list \<Rightarrow> bool" where
  "valid_article_url url article_urls =
     (str_in base_url url \<and>
      4 \<le> str_count url CHR ''/'' \<and>
      url \<notin> set article_urls \<and>
      \<not> list_ex (\<lambda>x. str_in x url) excluded)"

text \<open>
  The loop of lines 87-104 over the hrefs of the section. It returns \<open>article_urls\<close> as
  the loop leaves it, and the links the loop has not visited (none unless it broke).
\<close>

fun scan_links :: "int \<Rightarrow> string list \<Rightarrow> string list \<Rightarrow> string list \<times> string list" where
  "scan_links limit article_urls [] = (article_urls, [])"
| "scan_links limit article_urls (href # links) =
     (let url = full_url href
      in if valid_article_url url article_urls
         then (let article_urls' = article_urls @ [url]
               in if int (length article_urls') = limit
                  then (article_urls', links)
                  else scan_links limit article_urls' links)
         else scan_links limit article_urls links)"

text \<open>Lines 60-104 after the homepage is parsed.\<close>

definition discover_urls :: "node \<Rightarrow> int \<Rightarrow> string list" where
  "discover_urls soup limit =
     (case find_latest_section soup of
        None \<Rightarrow> []
      | Some sec \<Rightarrow> fst (scan_links limit [] (link_hrefs sec)))"

section \<open>The outside world\<close>

text \<open>
  A raised exception, with its \<open>str\<close>. \<open>Exception s\<close> is an instance of the class
  \<open>Exception\<close>, which \<open>except Exception\<close> catches; \<open>BaseException s\<close> is one outside
  that class (\<open>KeyboardInterrupt\<close>, \<open>SystemExit\<close>), which it does not catch. \<open>fetch\<close> is
  \<open>requests.get\<close> followed by the parser: the top-level nodes of the page, or the exception
  raised meanwhile. \<open>now n\<close> is what the \<open>n\<close>-th call of
  \<open>datetime.now().isoformat()\<close> returns.
\<close>

datatype exn = Exception string | BaseException string

fun str_of :: "exn \<Rightarrow> string" where
  "str_of (Exception s) = s"
| "str_of (BaseException s) = s"

record world =
  fetch :: "string \<Rightarrow> exn + node list"
  now :: "nat \<Rightarrow> string"

section \<open>Discovery\<close>

definition not_found :: exn where
  "not_found = Exception ''Could not find articles. Website structure may have changed.''"

text \<open>Lines 60-111. The handler of lines 106-107 wraps what it catches; an exception
  outside \<open>Exception\<close> passes through.\<close>

definition discover :: "world \<Rightarrow> int \<Rightarrow> exn + string list" where
  "discover w limit =
     (case fetch w base_url of
        Inl (Exception s) \<Rightarrow> Inl (Exception (''Network error: '' @ s))
      | Inl (BaseException s) \<Rightarrow> Inl (BaseException s)
      | Inr page \<Rightarrow>
          (let article_urls = discover_urls (BeautifulSoup page) limit
           in if article_urls = [] then Inl not_found else Inr article_urls))"

section \<open>Extraction\<close>

record article =
  url :: string
  title :: string
  summary :: string
  content :: string
  date :: string
  scraped_at :: string

text \<open>Lines 122-125.\<close>

definition extract_title :: "node \<Rightarrow> string" where
  "extract_title soup =
     (case find_first soup [''h1''] of None \<Rightarrow> [] | Some h1 \<Rightarrow> get_text_strip h1)"

text \<open>Lines 128-136.\<close>

definition content_parts :: "node \<Rightarrow> string list" where
  "content_parts soup =
     (case find_first soup [''article''] of
        None \<Rightarrow> []
      | Some article_tag \<Rightarrow>
          filter (\<lambda>text. 50 < length text) (map get_text_strip (find_all article_tag [''p''])))"

definition extract_content :: "node \<Rightarrow> string" where
  "extract_content soup = join [CHR 0x0A, CHR 0x0A] (content_parts soup)"

text \<open>Lines 139-142.\<close>

definition extract_summary :: "node \<Rightarrow> string" where
  "extract_summary soup =
     (case List.find (\<lambda>n. named [''meta''] n \<and> tag_get n ''name'' = Some ''description'')
             (descendants soup) of
        None \<Rightarrow> []
      | Some meta_desc \<Rightarrow>
          (case tag_get meta_desc ''content'' of
             None \<Rightarrow> []
           | Some c \<Rightarrow> c))"

text \<open>Lines 145-148.\<close>

definition extract_date :: "node \<Rightarrow> string" where
  "extract_date soup =
     (case find_first soup [''time''] of
        None \<Rightarrow> []
      | Some time_tag \<Rightarrow>
          (case tag_get time_tag ''datetime'' of
             None \<Rightarrow> get_text_strip time_tag
           | Some d \<Rightarrow> if d \<noteq> [] then d else get_text_strip time_tag))"

text \<open>Lines 121-158: the record built from a parsed article page.\<close>

definition extract_article :: "node \<Rightarrow> string \<Rightarrow> string \<Rightarrow> article" where
  "extract_article soup u stamp =
     \<lparr>url = u, title = extract_title soup, summary = extract_summary soup,
      content = extract_content soup, date = extract_date soup, scraped_at = stamp\<rparr>"

text \<open>Lines 164-171: the record appended by the \<open>except\<close> branch.\<close>

definition error_article :: "exn \<Rightarrow> string \<Rightarrow> string \<Rightarrow> article" where
  "error_article e u stamp =
     \<lparr>url = u, title = ''Error fetching article'', summary = [],
      content = ''Error: '' @ take 200 (str_of e), date = [], scraped_at = stamp\<rparr>"

text \<open>
  One iteration of the loop of lines 116-171; \<open>n\<close> counts the clock readings so far.
  The handler of line 162 catches the class \<open>Exception\<close> only: any other exception
  leaves the loop and the function.
\<close>

definition scrape_one :: "world \<Rightarrow> nat \<Rightarrow> string \<Rightarrow> exn + article" where
  "scrape_one w n u =
     (case fetch w u of
        Inl (Exception s) \<Rightarrow> Inr (error_article (Exception s) u (now w n))
      | Inl (BaseException s) \<Rightarrow> Inl (BaseException s)
      | Inr page \<Rightarrow> Inr (extract_article (BeautifulSoup page) u (now w n)))"

fun scrape_articles :: "world \<Rightarrow> nat \<Rightarrow> string list \<Rightarrow> exn + article list" where
  "scrape_articles w n [] = Inr []"
| "scrape_articles w n (u # us) =
     (case scrape_one w n u of
        Inl e \<Rightarrow> Inl e
      | Inr a \<Rightarrow>
          (case scrape_articles w (Suc n) us of
             Inl e \<Rightarrow> Inl e
           | Inr articles \<Rightarrow> Inr (a # articles)))"

definition none_scraped :: exn where
  "none_scraped = Exception ''No articles were scraped successfully''"

text \<open>Lines 43-177.\<close>

definition scrape_crypto_news :: "world \<Rightarrow> int \<Rightarrow> exn + article list" where
  "scrape_crypto_news w limit =
     (case discover w limit of
        Inl e \<Rightarrow> Inl e
      | Inr article_urls \<Rightarrow>
          (case scrape_articles w 0 article_urls of
             Inl e \<Rightarrow> Inl e
           | Inr articles \<Rightarrow> if articles = [] then Inl none_scraped else Inr articles))"

text \<open>The fetch of \<open>u\<close> raises nothing that the handler of line 162 lets through.\<close>

definition catchable :: "world \<Rightarrow> string \<Rightarrow> bool" where
  "catchable w u = (case fetch w u of Inl (BaseException s) \<Rightarrow> False | _ \<Rightarrow> True)"

section \<open>Example pages\<close>

definition link :: "string \<Rightarrow> node" where
  "link href = Element ''a'' [(''href'', href)] [Text ''read more'']"

definition section_home :: node where
  "section_home =
     Element ''section'' [(''class'', ''news'')]
       [Element ''h2'' [] [Text '' Latest  ''],
        link ''/news/btc-up/'',
        link ''/category/markets/page/'',
        link ''/news/btc-up/'',
        link ''https://crypto.news/news/eth-merge/'',
        link ''/news/sol-outage/'']"

definition section_other :: node where
  "section_other = Element ''div'' [(''class'', ''big latest-news'')] [link ''/news/other/'']"

definition page_home :: "node list" where
  "page_home = [Element ''html'' [] [Element ''body'' [] [section_home, section_other]]]"

definition section_no_links :: node where
  "section_no_links =
     Element ''div'' [(''class'', ''Latest-Posts'')]
       [link ''/category/markets/page/'', link ''/about'']"

definition page_no_links :: "node list" where
  "page_no_links = [Element ''html'' [] [section_no_links]]"

definition page_no_section :: "node list" where
  "page_no_section = [Element ''html'' [] [Element ''p'' [] [link ''/news/btc-up/'']]]"

definition heading_split :: node where
  "heading_split = Element ''h1'' [] [Text ''Bitcoin '', Element ''b'' [] [Text ''Hits'']]"

definition long_paragraph :: string where
  "long_paragraph = ''Bitcoin rose above one hundred thousand dollars on Monday morning.''"

definition page_article :: "node list" where
  "page_article =
     [Element ''h1'' [] [Text '' Ether merges '']
     ,Element ''article'' []
        [Element ''p'' [] [Text ''short caption'']
        ,Element ''p'' [] [Text long_paragraph]]]"

definition page_title_only :: "node list" where
  "page_title_only = [Element ''h1'' [] [Text ''Bitcoin Hits $100K'']]"

definition world_of :: "node list \<Rightarrow> world" where
  "world_of home =
     \<lparr>fetch = (\<lambda>u. if u = base_url then Inr home
                  else if u = ''https://crypto.news/news/btc-up/''
                       then Inl (Exception ''Read timed out'')
                       else Inr page_article),
      now = (\<lambda>n. if n = 0 then ''2024-05-01T10:00:00'' else ''2024-05-01T10:00:07'')\<rparr>"

definition world_later :: world where
  "world_later =
     \<lparr>fetch = (\<lambda>u. if u = base_url then Inr page_home else Inl (Exception ''Connection refused'')),
      now = (\<lambda>n. ''2025-01-01T00:00:00'')\<rparr>"

definition world_down :: world where
  "world_down =
     \<lparr>fetch = (\<lambda>u. Inl (Exception (replicate 250 CHR ''x''))),
      now = (\<lambda>n. ''2025-01-01T00:00:00'')\<rparr>"


section \<open>What the link loop computes\<close>

text \<open>The three tests of lines 95-99 that look at the URL alone.\<close>

definition qualifies :: "string \<Rightarrow> bool" where
  "qualifies u =
     (str_in base_url u \<and> 4 \<le> str_count u CHR ''/'' \<and> \<not> list_ex (\<lambda>x. str_in x u) excluded)"

text \<open>Specification: every element once, at its first place.\<close>

fun dedup_first :: "'a list \<Rightarrow> 'a list" where
  "dedup_first [] = []"
| "dedup_first (x # xs) = x # filter (\<lambda>y. y \<noteq> x) (dedup_first xs)"

text \<open>Specification: the qualifying URLs of a list of hrefs, in encounter order, without
  repetition.\<close>

definition qualifying :: "string list \<Rightarrow> string list" where
  "qualifying hrefs = dedup_first (filter qualifies (map full_url hrefs))"

text \<open>The qualifying URLs that are not yet in the accumulated list.\<close>

definition fresh :: "string list \<Rightarrow> string list \<Rightarrow> string list" where
  "fresh acc hrefs = filter (\<lambda>u. u \<notin> set acc) (qualifying hrefs)"

lemma valid_article_url_iff:
  "valid_article_url u acc \<longleftrightarrow> qualifies u \<and> u \<notin> set acc"
  by (auto simp: valid_article_url_def qualifies_def)

lemma set_dedup_first: "set (dedup_first xs) = set xs"
  by (induction xs) auto

lemma distinct_dedup_first: "distinct (dedup_first xs)"
  by (induction xs) (auto simp: set_dedup_first)

lemma remdups_snoc: "remdups (ys @ [x]) = filter (\<lambda>y. y \<noteq> x) (remdups ys) @ [x]"
  by (induction ys) auto

lemma dedup_first_rev_remdups: "dedup_first xs = rev (remdups (rev xs))"
  by (induction xs) (simp_all add: remdups_snoc rev_filter)

lemma distinct_qualifying: "distinct (qualifying hrefs)"
  by (simp add: qualifying_def distinct_dedup_first)

lemma fresh_Nil: "fresh acc [] = []"
  by (simp add: fresh_def qualifying_def)

lemma fresh_empty_acc: "fresh [] hrefs = qualifying hrefs"
  by (simp add: fresh_def)

lemma fresh_Cons:
  "fresh acc (h # hs) =
     (if valid_article_url (full_url h) acc
      then full_url h # fresh (acc @ [full_url h]) hs
      else fresh acc hs)"
proof (cases "qualifies (full_url h)")
  case False
  then show ?thesis
    by (simp add: fresh_def qualifying_def valid_article_url_iff)
next
  case True
  have eq: "qualifying (h # hs) = full_url h # filter (\<lambda>y. y \<noteq> full_url h) (qualifying hs)"
    using True by (simp add: qualifying_def)
  show ?thesis
  proof (cases "full_url h \<in> set acc")
    case True
    have "filter (\<lambda>u. u \<notin> set acc) (filter (\<lambda>y. y \<noteq> full_url h) (qualifying hs))
          = filter (\<lambda>u. u \<notin> set acc) (qualifying hs)"
      unfolding filter_filter using True by (intro filter_cong) auto
    with True show ?thesis
      by (simp add: fresh_def eq valid_article_url_iff)
  next
    case False
    have "filter (\<lambda>u. u \<notin> set acc) (filter (\<lambda>y. y \<noteq> full_url h) (qualifying hs))
          = filter (\<lambda>u. u \<notin> set (acc @ [full_url h])) (qualifying hs)"
      unfolding filter_filter by (intro filter_cong) auto
    with False \<open>qualifies (full_url h)\<close> show ?thesis
      by (simp add: fresh_def eq valid_article_url_iff)
  qed
qed

text \<open>Once the list is at least \<open>limit\<close> long, the test of line 103 cannot succeed any more.\<close>

lemma scan_links_past_limit:
  "limit \<le> int (length acc) \<Longrightarrow> scan_links limit acc hs = (acc @ fresh acc hs, [])"
proof (induction hs arbitrary: acc)
  case Nil
  then show ?case by (simp add: fresh_Nil)
next
  case (Cons h hs)
  show ?case
  proof (cases "valid_article_url (full_url h) acc")
    case True
    have "limit \<le> int (length (acc @ [full_url h]))" using Cons.prems by simp
    from Cons.IH [OF this] True Cons.prems show ?thesis
      by (simp add: fresh_Cons Let_def)
  next
    case False
    with Cons show ?thesis by (simp add: fresh_Cons Let_def)
  qed
qed

lemma scan_links_below_limit:
  "int (length acc) < limit \<Longrightarrow>
     fst (scan_links limit acc hs) = take (nat limit) (acc @ fresh acc hs)"
proof (induction hs arbitrary: acc)
  case Nil
  then show ?case by (simp add: fresh_Nil)
next
  case (Cons h hs)
  show ?case
  proof (cases "valid_article_url (full_url h) acc")
    case False
    with Cons show ?thesis by (simp add: fresh_Cons Let_def)
  next
    case True
    show ?thesis
    proof (cases "int (length (acc @ [full_url h])) = limit")
      case True
      then have "nat limit = Suc (length acc)" by simp
      with \<open>valid_article_url (full_url h) acc\<close> True show ?thesis
        by (simp add: fresh_Cons Let_def)
    next
      case False
      with Cons.prems have "int (length (acc @ [full_url h])) < limit" by simp
      from Cons.IH [OF this] False \<open>valid_article_url (full_url h) acc\<close> show ?thesis
        by (simp add: fresh_Cons Let_def)
    qed
  qed
qed

text \<open>Where the loop stops: the visited links are the shortest prefix that fills the list.\<close>

lemma scan_links_stops:
  "int (length acc) < limit \<Longrightarrow> scan_links limit acc hs = (urls, rest) \<Longrightarrow>
     \<exists>scanned. hs = scanned @ rest \<and> urls = acc @ fresh acc scanned \<and>
       (rest \<noteq> [] \<longrightarrow> int (length urls) = limit) \<and>
       (\<forall>k<length scanned. int (length (acc @ fresh acc (take k scanned))) < limit)"
proof (induction hs arbitrary: acc)
  case Nil
  then show ?case by (simp add: fresh_Nil)
next
  case (Cons h hs)
  let ?u = "full_url h"
  show ?case
  proof (cases "valid_article_url ?u acc")
    case False
    with Cons.prems have "scan_links limit acc hs = (urls, rest)" by (simp add: Let_def)
    from Cons.IH [OF Cons.prems(1) this] obtain scanned where
      s: "hs = scanned @ rest" "urls = acc @ fresh acc scanned"
         "rest \<noteq> [] \<longrightarrow> int (length urls) = limit"
         "\<forall>k<length scanned. int (length (acc @ fresh acc (take k scanned))) < limit"
      by blast
    have "\<forall>k<length (h # scanned). int (length (acc @ fresh acc (take k (h # scanned)))) < limit"
    proof (intro allI impI)
      fix k assume "k < length (h # scanned)"
      then show "int (length (acc @ fresh acc (take k (h # scanned)))) < limit"
        using s(4) Cons.prems(1) False by (cases k) (auto simp: fresh_Cons fresh_Nil)
    qed
    with s False show ?thesis
      by (intro exI [of _ "h # scanned"]) (simp add: fresh_Cons)
  next
    case True
    show ?thesis
    proof (cases "int (length (acc @ [?u])) = limit")
      case True
      with \<open>valid_article_url ?u acc\<close> Cons.prems have "urls = acc @ [?u]" "rest = hs"
        by (simp_all add: Let_def)
      with True \<open>valid_article_url ?u acc\<close> Cons.prems(1) show ?thesis
        by (intro exI [of _ "[h]"]) (simp add: fresh_Cons fresh_Nil)
    next
      case False
      with Cons.prems(1) have lt: "int (length (acc @ [?u])) < limit" by simp
      from False \<open>valid_article_url ?u acc\<close> Cons.prems
      have "scan_links limit (acc @ [?u]) hs = (urls, rest)" by (simp add: Let_def)
      from Cons.IH [OF lt this] obtain scanned where
        s: "hs = scanned @ rest" "urls = (acc @ [?u]) @ fresh (acc @ [?u]) scanned"
           "rest \<noteq> [] \<longrightarrow> int (length urls) = limit"
           "\<forall>k<length scanned.
              int (length ((acc @ [?u]) @ fresh (acc @ [?u]) (take k scanned))) < limit"
        by blast
      have "\<forall>k<length (h # scanned).
              int (length (acc @ fresh acc (take k (h # scanned)))) < limit"
      proof (intro allI impI)
        fix k assume "k < length (h # scanned)"
        then show "int (length (acc @ fresh acc (take k (h # scanned)))) < limit"
          using s(4) Cons.prems(1) \<open>valid_article_url ?u acc\<close>
          by (cases k) (auto simp: fresh_Cons fresh_Nil)
      qed
      with s \<open>valid_article_url ?u acc\<close> show ?thesis
        by (intro exI [of _ "h # scanned"]) (simp add: fresh_Cons)
    qed
  qed
qed

lemma scan_links_keeps: "set acc \<subseteq> set (fst (scan_links limit acc hs))"
proof (induction hs arbitrary: acc)
  case Nil
  then show ?case by simp
next
  case (Cons h hs)
  from Cons [of acc] Cons [of "acc @ [full_url h]"] show ?case
    by (auto simp: Let_def)
qed

lemma scan_links_only_qualifying:
  "u \<in> set (fst (scan_links limit acc hs)) \<Longrightarrow> u \<in> set acc \<or> qualifies u"
proof (induction hs arbitrary: acc)
  case Nil
  then show ?case by simp
next
  case (Cons h hs)
  then show ?case
    by (fastforce simp: Let_def valid_article_url_iff split: if_splits)
qed

lemma dedup_first_snoc:
  "dedup_first (xs @ [x]) = (if x \<in> set xs then dedup_first xs else dedup_first xs @ [x])"
  by (induction xs) auto

lemma set_qualifying: "set (qualifying hs) = {u \<in> full_url ` set hs. qualifies u}"
  by (auto simp: qualifying_def set_dedup_first)

lemma qualifying_snoc:
  "qualifying (hs @ [h]) =
     (if valid_article_url (full_url h) (qualifying hs)
      then qualifying hs @ [full_url h] else qualifying hs)"
  by (simp add: qualifying_def dedup_first_snoc valid_article_url_iff set_dedup_first)

lemma length_qualifying_snoc: "length (qualifying (hs @ [h])) \<le> Suc (length (qualifying hs))"
  by (simp add: qualifying_snoc)

text \<open>The links the loop visits, and the list it holds after each of them.\<close>

lemma scan_links_visited:
  assumes "scan_links limit [] hrefs = (urls, rest)"
  shows "\<exists>scanned. hrefs = scanned @ rest \<and> urls = qualifying scanned \<and>
           (rest \<noteq> [] \<longrightarrow> int (length urls) = limit) \<and>
           (\<forall>k\<le>length scanned.
              fst (scan_links limit [] (take k scanned)) = qualifying (take k scanned))"
proof (cases "limit \<le> 0")
  case True
  then have always: "scan_links limit [] hs = (qualifying hs, [])" for hs
    using scan_links_past_limit [of limit "[]" hs] by (simp add: fresh_empty_acc)
  with assms have "urls = qualifying hrefs" "rest = []" by simp_all
  with always show ?thesis
    by (intro exI [of _ hrefs]) simp
next
  case False
  then have lt: "int (length ([] :: string list)) < limit" by simp
  from scan_links_stops [OF lt assms] obtain scanned where
    s: "hrefs = scanned @ rest" "urls = fresh [] scanned"
       "rest \<noteq> [] \<longrightarrow> int (length urls) = limit"
       "\<forall>k<length scanned. int (length ([] @ fresh [] (take k scanned))) < limit"
    by auto
  have below: "fst (scan_links limit [] hs) = take (nat limit) (qualifying hs)" for hs
    using scan_links_below_limit [OF lt, of hs] by (simp add: fresh_empty_acc)
  have pre: "fst (scan_links limit [] (take k scanned)) = qualifying (take k scanned)"
    if k: "k \<le> length scanned" for k
  proof (cases k)
    case 0
    then show ?thesis by (simp add: qualifying_def)
  next
    case (Suc j)
    with k have j: "j < length scanned" by simp
    with s(4) have "length (qualifying (take j scanned)) < nat limit"
      by (auto simp: fresh_empty_acc)
    moreover have "take (Suc j) scanned = take j scanned @ [scanned ! j]"
      using j by (rule take_Suc_conv_app_nth)
    ultimately have "length (qualifying (take (Suc j) scanned)) \<le> nat limit"
      using length_qualifying_snoc [of "take j scanned" "scanned ! j"] by simp
    with Suc show ?thesis by (simp add: below)
  qed
  from s(1,2,3) pre show ?thesis
    by (intro exI [of _ scanned]) (simp add: fresh_empty_acc)
qed

lemma scrape_one_Inl:
  "scrape_one w n u = Inl e \<Longrightarrow> \<exists>t. e = BaseException t \<and> fetch w u = Inl (BaseException t)"
  by (auto simp: scrape_one_def split: sum.splits exn.splits)

lemma scrape_one_catchable: "catchable w u \<Longrightarrow> \<exists>a. scrape_one w n u = Inr a"
  by (auto simp: scrape_one_def catchable_def split: sum.splits exn.splits)

lemma url_scrape_one: "scrape_one w n u = Inr a \<Longrightarrow> url a = u"
  by (auto simp: scrape_one_def error_article_def extract_article_def
      split: sum.splits exn.splits)

lemma scrape_articles_Inl:
  "scrape_articles w n us = Inl e \<Longrightarrow>
     \<exists>u\<in>set us. \<exists>t. e = BaseException t \<and> fetch w u = Inl (BaseException t)"
proof (induction us arbitrary: n)
  case Nil
  then show ?case by simp
next
  case (Cons u us)
  show ?case
  proof (cases "scrape_one w n u")
    case (Inl e')
    with Cons.prems have "e' = e" by simp
    with Inl scrape_one_Inl [of w n u e] show ?thesis by auto
  next
    case (Inr a)
    with Cons.prems have "scrape_articles w (Suc n) us = Inl e"
      by (simp split: sum.splits)
    from Cons.IH [OF this] show ?thesis by auto
  qed
qed

lemma scrape_articles_catchable:
  "\<forall>u\<in>set us. catchable w u \<Longrightarrow> \<exists>articles. scrape_articles w n us = Inr articles"
proof (induction us arbitrary: n)
  case Nil
  then show ?case by simp
next
  case (Cons u us)
  from Cons.prems obtain a where a: "scrape_one w n u = Inr a"
    using scrape_one_catchable [of w u n] by auto
  from Cons.prems Cons.IH [of "Suc n"] obtain articles where
    "scrape_articles w (Suc n) us = Inr articles" by auto
  with a show ?case by simp
qed

lemma length_scrape_articles:
  "scrape_articles w n us = Inr articles \<Longrightarrow> length articles = length us"
  by (induction us arbitrary: n articles) (auto split: sum.splits)


lemma map_url_scrape_articles:
  "scrape_articles w n us = Inr articles \<Longrightarrow> map url articles = us"
  by (induction us arbitrary: n articles) (auto split: sum.splits dest: url_scrape_one)

lemma discover_Inr_nonempty: "discover w limit = Inr urls \<Longrightarrow> urls \<noteq> []"
  by (auto simp: discover_def Let_def split: sum.splits exn.splits if_splits)

lemma scrape_crypto_news_Inr:
  "discover w limit = Inr urls \<Longrightarrow> scrape_articles w 0 urls = Inr articles \<Longrightarrow>
     scrape_crypto_news w limit = Inr articles"
  using discover_Inr_nonempty [of w limit urls] length_scrape_articles [of w 0 urls articles]
  by (cases articles) (auto simp: scrape_crypto_news_def)

lemma scrape_crypto_news_Inl:
  "discover w limit = Inr urls \<Longrightarrow> scrape_articles w 0 urls = Inl e \<Longrightarrow>
     scrape_crypto_news w limit = Inl e"
  by (simp add: scrape_crypto_news_def)

lemma discover_not_none_scraped: "discover w limit \<noteq> Inl none_scraped"
  by (auto simp: discover_def Let_def none_scraped_def not_found_def
      split: sum.splits exn.splits)

lemma discover_page:
  "fetch w base_url = Inr page \<Longrightarrow>
   discover w limit =
     (if discover_urls (BeautifulSoup page) limit = [] then Inl not_found
      else Inr (discover_urls (BeautifulSoup page) limit))"
  by (simp add: discover_def Let_def)

lemma get_text_strip_single:
  "all_strings n = [s] \<Longrightarrow> get_text_strip n = strip (get_text n)"
  by (simp add: get_text_strip_def get_text_def)

section \<open>The claims\<close>

text \<open>
  C10. The function does not check \<open>limit\<close>. With \<open>limit \<le> 0\<close> the test of line 103
  (the length of the list equals \<open>limit\<close>, made after an append) never succeeds: the loop
  visits every link of the section and Discovery returns every qualifying URL.
\<close>

theorem limit_not_positive_returns_all:
  assumes "limit \<le> 0"
  shows "scan_links limit [] hrefs = (qualifying hrefs, []) \<and>
         (find_latest_section soup = Some sec \<longrightarrow>
            discover_urls soup limit = qualifying (link_hrefs sec))"
  using assms scan_links_past_limit [of limit "[]" hrefs]
    scan_links_past_limit [of limit "[]" "link_hrefs sec"]
  by (simp add: fresh_empty_acc discover_urls_def)

theorem limit_not_positive_returns_all_witness:
  "(0::int) \<le> 0 \<and> (-3::int) \<le> 0 \<and>
   find_latest_section (BeautifulSoup page_home) = Some section_home \<and>
   discover_urls (BeautifulSoup page_home) 0 =
     [''https://crypto.news/news/btc-up/'', ''https://crypto.news/news/eth-merge/'',
      ''https://crypto.news/news/sol-outage/''] \<and>
   discover_urls (BeautifulSoup page_home) (-3) = discover_urls (BeautifulSoup page_home) 0 \<and>
   discover_urls (BeautifulSoup page_home) 2 =
     [''https://crypto.news/news/btc-up/'', ''https://crypto.news/news/eth-merge/'']"
proof -
  have sec: "find_latest_section (BeautifulSoup page_home) = Some section_home"
    by code_simp
  have q: "qualifying (link_hrefs section_home) =
     [''https://crypto.news/news/btc-up/'', ''https://crypto.news/news/eth-merge/'',
      ''https://crypto.news/news/sol-outage/'']"
    by code_simp
  have two: "discover_urls (BeautifulSoup page_home) 2 =
     [''https://crypto.news/news/btc-up/'', ''https://crypto.news/news/eth-merge/'']"
    by code_simp
  from limit_not_positive_returns_all [of 0 "[]" "BeautifulSoup page_home" section_home]
    limit_not_positive_returns_all [of "-3" "[]" "BeautifulSoup page_home" section_home]
    sec q two
  show ?thesis by simp
qed

text \<open>
  C4, as stated, fails for a link the loop does not visit: with \<open>limit = 1\<close> the loop
  breaks after the first accepted URL, and a later link of the section whose URL passes all
  four tests is never accepted.
\<close>

theorem url_acceptance_filter_counterexample:
  "find_latest_section (BeautifulSoup page_home) = Some section_home \<and>
   ''https://crypto.news/news/eth-merge/'' \<in> set (link_hrefs section_home) \<and>
   discover_urls (BeautifulSoup page_home) 1 = [''https://crypto.news/news/btc-up/''] \<and>
   valid_article_url (full_url ''https://crypto.news/news/eth-merge/'')
     (discover_urls (BeautifulSoup page_home) 1) \<and>
   full_url ''https://crypto.news/news/eth-merge/''
     \<notin> set (discover_urls (BeautifulSoup page_home) 1)"
  by code_simp

text \<open>
  C4, amended. The filter of lines 87-101 applies to the links the loop visits: the links
  of the section in document order, all of them unless the list reached \<open>limit\<close>, and then
  up to the link that filled it. An href with a leading \<open>/\<close> is put after the base URL, and
  the URL is appended exactly if it contains the base URL, has at least four \<open>/\<close>, is not
  yet in the list and contains none of the seven excluded substrings. For every visited
  link, the list after the visit is the list before it with the URL appended exactly under
  these tests, and the URL is in the final list exactly if it was in the list already or is
  appended then.
\<close>

theorem url_acceptance_filter:
  assumes "scan_links limit [] hrefs = (urls, rest)"
  shows "full_url href = (if startswith href ''/'' then ''https://crypto.news'' @ href else href) \<and>
   (valid_article_url u article_urls \<longleftrightarrow>
      str_in ''https://crypto.news'' u \<and>
      4 \<le> str_count u CHR ''/'' \<and>
      u \<notin> set article_urls \<and>
      (\<forall>x \<in> set [''/category/'', ''/tag/'', ''/author/'', ''#'',
                  ''/buy-crypto/'', ''/events/'', ''/meme-coins/'']. \<not> str_in x u)) \<and>
   scan_links limit article_urls (href # links) =
     (if valid_article_url (full_url href) article_urls
      then (if int (length article_urls) + 1 = limit
            then (article_urls @ [full_url href], links)
            else scan_links limit (article_urls @ [full_url href]) links)
      else scan_links limit article_urls links) \<and>
   (full_url href \<in> set (fst (scan_links limit article_urls (href # links))) \<longleftrightarrow>
      full_url href \<in> set article_urls \<or> valid_article_url (full_url href) article_urls) \<and>
   (\<exists>visited. hrefs = visited @ rest \<and>
      (rest \<noteq> [] \<longrightarrow> int (length urls) = limit) \<and>
      fst (scan_links limit [] visited) = urls \<and>
      (\<forall>k<length visited.
         fst (scan_links limit [] (take (Suc k) visited)) =
           (if valid_article_url (full_url (visited ! k)) (fst (scan_links limit [] (take k visited)))
            then fst (scan_links limit [] (take k visited)) @ [full_url (visited ! k)]
            else fst (scan_links limit [] (take k visited))) \<and>
         (full_url (visited ! k) \<in> set urls \<longleftrightarrow>
            full_url (visited ! k) \<in> set (fst (scan_links limit [] (take k visited))) \<or>
            valid_article_url (full_url (visited ! k))
              (fst (scan_links limit [] (take k visited))))))"
proof -
  have a: "full_url href = (if startswith href ''/'' then ''https://crypto.news'' @ href else href)"
    by (simp add: full_url_def base_url_def)
  have b: "valid_article_url u article_urls \<longleftrightarrow>
      str_in ''https://crypto.news'' u \<and>
      4 \<le> str_count u CHR ''/'' \<and>
      u \<notin> set article_urls \<and>
      (\<forall>x \<in> set [''/category/'', ''/tag/'', ''/author/'', ''#'',
                  ''/buy-crypto/'', ''/events/'', ''/meme-coins/'']. \<not> str_in x u)"
    unfolding valid_article_url_def excluded_def base_url_def list_ex_iff by blast
  have c: "scan_links limit article_urls (href # links) =
     (if valid_article_url (full_url href) article_urls
      then (if int (length article_urls) + 1 = limit
            then (article_urls @ [full_url href], links)
            else scan_links limit (article_urls @ [full_url href]) links)
      else scan_links limit article_urls links)"
    by (simp add: Let_def)
  have d: "full_url href \<in> set (fst (scan_links limit article_urls (href # links))) \<longleftrightarrow>
      full_url href \<in> set article_urls \<or> valid_article_url (full_url href) article_urls"
  proof
    assume "full_url href \<in> set (fst (scan_links limit article_urls (href # links)))"
    from scan_links_only_qualifying [OF this]
    show "full_url href \<in> set article_urls \<or> valid_article_url (full_url href) article_urls"
      by (auto simp: valid_article_url_iff)
  next
    assume r: "full_url href \<in> set article_urls \<or> valid_article_url (full_url href) article_urls"
    show "full_url href \<in> set (fst (scan_links limit article_urls (href # links)))"
    proof (cases "valid_article_url (full_url href) article_urls")
      case True
      then show ?thesis
        using scan_links_keeps [of "article_urls @ [full_url href]" limit links]
        by (auto simp: Let_def)
    next
      case False
      with r have "full_url href \<in> set article_urls" by simp
      then show ?thesis
        using scan_links_keeps [of article_urls limit "href # links"] by blast
    qed
  qed
  from scan_links_visited [OF assms] obtain visited where
    v: "hrefs = visited @ rest" "urls = qualifying visited"
       "rest \<noteq> [] \<longrightarrow> int (length urls) = limit"
       "\<forall>k\<le>length visited.
          fst (scan_links limit [] (take k visited)) = qualifying (take k visited)"
    by blast
  have whole: "fst (scan_links limit [] visited) = urls"
    using v(2,4) by auto
  have each: "fst (scan_links limit [] (take (Suc k) visited)) =
           (if valid_article_url (full_url (visited ! k)) (fst (scan_links limit [] (take k visited)))
            then fst (scan_links limit [] (take k visited)) @ [full_url (visited ! k)]
            else fst (scan_links limit [] (take k visited))) \<and>
         (full_url (visited ! k) \<in> set urls \<longleftrightarrow>
            full_url (visited ! k) \<in> set (fst (scan_links limit [] (take k visited))) \<or>
            valid_article_url (full_url (visited ! k))
              (fst (scan_links limit [] (take k visited))))"
    if k: "k < length visited" for k
  proof -
    let ?u = "full_url (visited ! k)"
    let ?before = "qualifying (take k visited)"
    from k v(4) have bk: "fst (scan_links limit [] (take k visited)) = ?before"
      by simp
    from k v(4) have ak: "fst (scan_links limit [] (take (Suc k) visited))
                          = qualifying (take (Suc k) visited)"
      by (simp add: Suc_le_eq)
    have tk: "take (Suc k) visited = take k visited @ [visited ! k]"
      using k by (rule take_Suc_conv_app_nth)
    have step: "qualifying (take (Suc k) visited) =
        (if valid_article_url ?u ?before then ?before @ [?u] else ?before)"
      unfolding tk by (rule qualifying_snoc)
    have "?u \<in> full_url ` set visited" using k by simp
    then have in_final: "?u \<in> set urls \<longleftrightarrow> qualifies ?u"
      unfolding v(2) set_qualifying by simp
    have "?u \<in> set ?before \<Longrightarrow> qualifies ?u"
      unfolding set_qualifying by simp
    with in_final have mem: "?u \<in> set urls \<longleftrightarrow> ?u \<in> set ?before \<or> valid_article_url ?u ?before"
      unfolding valid_article_url_iff by blast
    from step mem show ?thesis unfolding bk ak by simp
  qed
  have e: "\<exists>visited. hrefs = visited @ rest \<and>
      (rest \<noteq> [] \<longrightarrow> int (length urls) = limit) \<and>
      fst (scan_links limit [] visited) = urls \<and>
      (\<forall>k<length visited.
         fst (scan_links limit [] (take (Suc k) visited)) =
           (if valid_article_url (full_url (visited ! k)) (fst (scan_links limit [] (take k visited)))
            then fst (scan_links limit [] (take k visited)) @ [full_url (visited ! k)]
            else fst (scan_links limit [] (take k visited))) \<and>
         (full_url (visited ! k) \<in> set urls \<longleftrightarrow>
            full_url (visited ! k) \<in> set (fst (scan_links limit [] (take k visited))) \<or>
            valid_article_url (full_url (visited ! k))
              (fst (scan_links limit [] (take k visited)))))"
    using v(1,3) whole each by (intro exI [of _ visited]) simp
  show ?thesis
    by (rule conjI [OF a conjI [OF b conjI [OF c conjI [OF d e]]]])
qed

theorem url_acceptance_filter_witness:
  "scan_links 3 [] (link_hrefs section_home) =
     ([''https://crypto.news/news/btc-up/'', ''https://crypto.news/news/eth-merge/'',
       ''https://crypto.news/news/sol-outage/''], []) \<and>
   valid_article_url (full_url ''/news/btc-up/'') [] \<and>
   full_url ''/news/btc-up/'' = ''https://crypto.news/news/btc-up/'' \<and>
   full_url ''/news/btc-up/'' \<in> set (fst (scan_links 3 [] [''/news/btc-up/''])) \<and>
   \<not> valid_article_url (full_url ''/category/markets/page/'') [] \<and>
   full_url ''/category/markets/page/''
     \<notin> set (fst (scan_links 3 [] [''/category/markets/page/'', ''/news/btc-up/'']))"
proof -
  have sc: "scan_links 3 [] (link_hrefs section_home) =
     ([''https://crypto.news/news/btc-up/'', ''https://crypto.news/news/eth-merge/'',
       ''https://crypto.news/news/sol-outage/''], [])"
    by code_simp
  have ok: "valid_article_url (full_url ''/news/btc-up/'') []"
    by code_simp
  have no: "\<not> valid_article_url (full_url ''/category/markets/page/'') []"
    by code_simp
  have f: "full_url ''/news/btc-up/'' = ''https://crypto.news/news/btc-up/''"
    by code_simp
  from url_acceptance_filter [OF sc, where href = "''/news/btc-up/''" and article_urls = "[]"
      and links = "[]"] ok
  have a: "full_url ''/news/btc-up/'' \<in> set (fst (scan_links 3 [] [''/news/btc-up/'']))"
    by blast
  from url_acceptance_filter [OF sc, where href = "''/category/markets/page/''"
      and article_urls = "[]" and links = "[''/news/btc-up/'']"]
  have "full_url ''/category/markets/page/''
          \<in> set (fst (scan_links 3 [] [''/category/markets/page/'', ''/news/btc-up/''])) \<longleftrightarrow>
        full_url ''/category/markets/page/'' \<in> set [] \<or>
        valid_article_url (full_url ''/category/markets/page/'') []"
    by blast
  with no
  have b: "full_url ''/category/markets/page/''
     \<notin> set (fst (scan_links 3 [] [''/category/markets/page/'', ''/news/btc-up/'']))"
    by simp
  from sc ok no f a b show ?thesis by blast
qed




text \<open>
  C2, as stated, fails where a section is found and no link qualifies: fewer than
  \<open>limit\<close> links qualify, and Discovery raises the exception of line 111.
\<close>

theorem discovered_urls_counterexample:
  "find_latest_section (BeautifulSoup page_no_links) = Some section_no_links \<and>
   length (qualifying (link_hrefs section_no_links)) < 3 \<and>
   discover (world_of page_no_links) 3 = Inl not_found"
  by code_simp

text \<open>
  C2, amended. With a section found and \<open>1 \<le> limit\<close>, the URL list has no
  duplicates and at most \<open>limit\<close> elements, it is the first \<open>limit\<close> qualifying URLs in
  document order, the loop visits the shortest prefix of the links that yields \<open>limit\<close>
  URLs (all links if there is none), and when fewer than \<open>limit\<close> links qualify the list
  holds all of them; Discovery returns the list when it is not empty and fails when it is.
\<close>

theorem discovered_urls:
  assumes "1 \<le> limit"
    and "fetch w base_url = Inr page"
    and "find_latest_section (BeautifulSoup page) = Some sec"
    and "scan_links limit [] (link_hrefs sec) = (urls, rest)"
  shows "discover_urls (BeautifulSoup page) limit = urls \<and>
         distinct urls \<and>
         length urls \<le> nat limit \<and>
         urls = take (nat limit) (qualifying (link_hrefs sec)) \<and>
         (\<exists>scanned. link_hrefs sec = scanned @ rest \<and> urls = qualifying scanned \<and>
            (rest \<noteq> [] \<longrightarrow> length urls = nat limit) \<and>
            (\<forall>k<length scanned. length (qualifying (take k scanned)) < nat limit)) \<and>
         (length (qualifying (link_hrefs sec)) < nat limit \<longrightarrow>
            urls = qualifying (link_hrefs sec) \<and> rest = []) \<and>
         (urls \<noteq> [] \<longrightarrow> discover w limit = Inr urls) \<and>
         (urls = [] \<longrightarrow> discover w limit = Inl not_found)"
proof -
  have lt: "int (length ([] :: string list)) < limit" using assms(1) by simp
  have du: "discover_urls (BeautifulSoup page) limit = urls"
    using assms(3,4) by (simp add: discover_urls_def)
  have tk: "urls = take (nat limit) (qualifying (link_hrefs sec))"
    using scan_links_below_limit [OF lt, of "link_hrefs sec"] assms(4)
    by (simp add: fresh_empty_acc)
  have di: "distinct urls"
    unfolding tk by (rule distinct_take) (rule distinct_qualifying)
  have le: "length urls \<le> nat limit"
    unfolding tk by simp
  from scan_links_stops [OF lt assms(4)] obtain scanned where
    s: "link_hrefs sec = scanned @ rest" "urls = fresh [] scanned"
       "rest \<noteq> [] \<longrightarrow> int (length urls) = limit"
       "\<forall>k<length scanned. int (length ([] @ fresh [] (take k scanned))) < limit"
    by auto
  have sc: "\<exists>scanned. link_hrefs sec = scanned @ rest \<and> urls = qualifying scanned \<and>
            (rest \<noteq> [] \<longrightarrow> length urls = nat limit) \<and>
            (\<forall>k<length scanned. length (qualifying (take k scanned)) < nat limit)"
  proof (intro exI [of _ scanned] conjI)
    show "link_hrefs sec = scanned @ rest" by (rule s(1))
    show "urls = qualifying scanned" using s(2) by (simp add: fresh_empty_acc)
    show "rest \<noteq> [] \<longrightarrow> length urls = nat limit" using s(3) by auto
    show "\<forall>k<length scanned. length (qualifying (take k scanned)) < nat limit"
      using s(4) assms(1) by (auto simp: fresh_empty_acc)
  qed
  have fw: "length (qualifying (link_hrefs sec)) < nat limit \<longrightarrow>
            urls = qualifying (link_hrefs sec) \<and> rest = []"
  proof
    assume a: "length (qualifying (link_hrefs sec)) < nat limit"
    with tk have u: "urls = qualifying (link_hrefs sec)" by simp
    with a s(3) have "rest = []" by auto
    with u show "urls = qualifying (link_hrefs sec) \<and> rest = []" by simp
  qed
  have ok: "urls \<noteq> [] \<longrightarrow> discover w limit = Inr urls"
    using discover_page [OF assms(2), of limit] du by simp
  have er: "urls = [] \<longrightarrow> discover w limit = Inl not_found"
    using discover_page [OF assms(2), of limit] du by simp
  from du di le tk sc fw ok er show ?thesis by blast
qed

theorem discovered_urls_witness:
  "(1::int) \<le> 2 \<and>
   fetch (world_of page_home) base_url = Inr page_home \<and>
   find_latest_section (BeautifulSoup page_home) = Some section_home \<and>
   scan_links 2 [] (link_hrefs section_home) =
     ([''https://crypto.news/news/btc-up/'', ''https://crypto.news/news/eth-merge/''],
      [''/news/sol-outage/'']) \<and>
   discover (world_of page_home) 2 =
     Inr [''https://crypto.news/news/btc-up/'', ''https://crypto.news/news/eth-merge/''] \<and>
   scan_links 5 [] (link_hrefs section_home) = (qualifying (link_hrefs section_home), []) \<and>
   discover (world_of page_home) 5 =
     Inr [''https://crypto.news/news/btc-up/'', ''https://crypto.news/news/eth-merge/'',
          ''https://crypto.news/news/sol-outage/'']"
proof -
  let ?two = "[''https://crypto.news/news/btc-up/'', ''https://crypto.news/news/eth-merge/'']"
  let ?all = "[''https://crypto.news/news/btc-up/'', ''https://crypto.news/news/eth-merge/'',
          ''https://crypto.news/news/sol-outage/'']"
  have f: "fetch (world_of page_home) base_url = Inr page_home"
    by (simp add: world_of_def)
  have r: "find_latest_section (BeautifulSoup page_home) = Some section_home"
    by code_simp
  have s2: "scan_links 2 [] (link_hrefs section_home) = (?two, [''/news/sol-outage/''])"
    by code_simp
  have s5: "scan_links 5 [] (link_hrefs section_home) = (?all, [])"
    by code_simp
  have q: "qualifying (link_hrefs section_home) = ?all"
    by code_simp
  from discovered_urls [OF _ f r s2] have d2: "discover (world_of page_home) 2 = Inr ?two"
    by simp
  from discovered_urls [OF _ f r s5] have d5: "discover (world_of page_home) 5 = Inr ?all"
    by simp
  from f r s2 s5 q d2 d5 show ?thesis by simp
qed

text \<open>
  C3. When some \<open>h1\<close>, \<open>h2\<close>, \<open>h3\<close> or \<open>div\<close> of the page has the stripped,
  lower-cased text \<open>latest\<close>, the section is the parent of the first such tag in document
  order: it is the result of strategy 1, whatever strategies 2 and 3 would find.
\<close>

theorem strategy1_takes_precedence:
  assumes "(parent, heading) \<in> set (walk soup)" and "is_latest_heading heading"
  shows "\<exists>i<length (walk soup).
           is_latest_heading (snd (walk soup ! i)) \<and>
           (\<forall>j<i. \<not> is_latest_heading (snd (walk soup ! j))) \<and>
           strategy1 soup = Some (fst (walk soup ! i)) \<and>
           find_latest_section soup = Some (fst (walk soup ! i)) \<and>
           find_latest_section soup = strategy1 soup"
proof -
  let ?Q = "\<lambda>x. is_latest_heading (snd x)"
  have P: "(\<lambda>(p, h). is_latest_heading h) = ?Q"
    by (simp add: fun_eq_iff)
  have "?Q (parent, heading)" using assms(2) by simp
  with assms(1) have "\<exists>x. x \<in> set (walk soup) \<and> ?Q x" by blast
  then have "List.find ?Q (walk soup) \<noteq> None"
    by (simp add: find_None_iff)
  then obtain x where x: "List.find ?Q (walk soup) = Some x"
    by (cases "List.find ?Q (walk soup)") simp_all
  then have "\<exists>i<length (walk soup). ?Q (walk soup ! i) \<and> x = walk soup ! i \<and>
               (\<forall>j<i. \<not> ?Q (walk soup ! j))"
    by (simp only: find_Some_iff)
  then obtain i where i: "i < length (walk soup)" "?Q (walk soup ! i)" "x = walk soup ! i"
    "\<forall>j<i. \<not> ?Q (walk soup ! j)"
    by (elim exE conjE)
  have s1: "strategy1 soup = Some (fst (walk soup ! i))"
    unfolding strategy1_def P x i(3) by (cases "walk soup ! i") simp
  then have s: "find_latest_section soup = Some (fst (walk soup ! i))"
    by (simp add: find_latest_section_def)
  from s s1 have e: "find_latest_section soup = strategy1 soup" by simp
  show ?thesis
    by (rule exI [of _ i]) (rule conjI [OF i(1) conjI [OF i(2) conjI [OF i(4) conjI [OF s1 conjI [OF s e]]]]])
qed

theorem strategy1_takes_precedence_witness:
  "(section_home, Element ''h2'' [] [Text '' Latest  '']) \<in> set (walk (BeautifulSoup page_home)) \<and>
   is_latest_heading (Element ''h2'' [] [Text '' Latest  '']) \<and>
   find_latest_section (BeautifulSoup page_home) = Some section_home \<and>
   strategy2 (BeautifulSoup page_home) = Some section_other \<and>
   strategy3 (BeautifulSoup page_home) = Some section_other"
proof -
  have m: "(section_home, Element ''h2'' [] [Text '' Latest  '']) \<in> set (walk (BeautifulSoup page_home))"
    by code_simp
  have h: "is_latest_heading (Element ''h2'' [] [Text '' Latest  ''])"
    by code_simp
  have s1: "strategy1 (BeautifulSoup page_home) = Some section_home"
    by code_simp
  have s2: "strategy2 (BeautifulSoup page_home) = Some section_other"
    by code_simp
  have s3: "strategy3 (BeautifulSoup page_home) = Some section_other"
    by code_simp
  from strategy1_takes_precedence [OF m h]
  have "find_latest_section (BeautifulSoup page_home) = strategy1 (BeautifulSoup page_home)"
    by blast
  with m h s1 s2 s3 show ?thesis by simp
qed

text \<open>
  C5. When Discovery returns a list of URLs, the list is not empty and every list the
  article loop returns holds one record per URL, in the same order, and is the result; the
  loop returns one unless a fetch raises an exception outside \<open>Exception\<close>, which then
  leaves the function. The exception of line 175 is never raised.
\<close>

theorem one_article_per_url:
  "scrape_crypto_news w limit \<noteq> Inl none_scraped \<and>
   (\<forall>urls. discover w limit = Inr urls \<longrightarrow>
      urls \<noteq> [] \<and>
      (\<forall>articles. scrape_articles w 0 urls = Inr articles \<longrightarrow>
         scrape_crypto_news w limit = Inr articles \<and>
         articles \<noteq> [] \<and>
         length articles = length urls \<and>
         map url articles = urls) \<and>
      ((\<forall>u\<in>set urls. catchable w u) \<longrightarrow>
         (\<exists>articles. scrape_articles w 0 urls = Inr articles)) \<and>
      (\<forall>e. scrape_articles w 0 urls = Inl e \<longrightarrow>
         scrape_crypto_news w limit = Inl e \<and>
         (\<exists>u\<in>set urls. \<exists>t. e = BaseException t \<and> fetch w u = Inl (BaseException t))))"
proof -
  have b: "urls \<noteq> [] \<and>
      (\<forall>articles. scrape_articles w 0 urls = Inr articles \<longrightarrow>
         scrape_crypto_news w limit = Inr articles \<and>
         articles \<noteq> [] \<and>
         length articles = length urls \<and>
         map url articles = urls) \<and>
      ((\<forall>u\<in>set urls. catchable w u) \<longrightarrow>
         (\<exists>articles. scrape_articles w 0 urls = Inr articles)) \<and>
      (\<forall>e. scrape_articles w 0 urls = Inl e \<longrightarrow>
         scrape_crypto_news w limit = Inl e \<and>
         (\<exists>u\<in>set urls. \<exists>t. e = BaseException t \<and> fetch w u = Inl (BaseException t)))"
    if d: "discover w limit = Inr urls" for urls
  proof -
    from d have ne: "urls \<noteq> []" by (rule discover_Inr_nonempty)
    have r: "scrape_crypto_news w limit = Inr articles \<and> articles \<noteq> [] \<and>
         length articles = length urls \<and> map url articles = urls"
      if a: "scrape_articles w 0 urls = Inr articles" for articles
    proof -
      from length_scrape_articles [OF a] ne have "articles \<noteq> []" by auto
      with scrape_crypto_news_Inr [OF d a] length_scrape_articles [OF a]
        map_url_scrape_articles [OF a]
      show ?thesis by simp
    qed
    have c: "(\<forall>u\<in>set urls. catchable w u) \<longrightarrow>
         (\<exists>articles. scrape_articles w 0 urls = Inr articles)"
      using scrape_articles_catchable [of urls w 0] by blast
    have l: "scrape_crypto_news w limit = Inl e \<and>
         (\<exists>u\<in>set urls. \<exists>t. e = BaseException t \<and> fetch w u = Inl (BaseException t))"
      if a: "scrape_articles w 0 urls = Inl e" for e
      using scrape_crypto_news_Inl [OF d a] scrape_articles_Inl [OF a] by simp
    from ne r c l show ?thesis by blast
  qed
  have a: "scrape_crypto_news w limit \<noteq> Inl none_scraped"
  proof (cases "discover w limit")
    case (Inl e)
    with discover_not_none_scraped [of w limit] show ?thesis
      by (simp add: scrape_crypto_news_def)
  next
    case (Inr urls)
    show ?thesis
    proof (cases "scrape_articles w 0 urls")
      case (Inl e)
      with b [OF Inr] show ?thesis by (auto simp: none_scraped_def)
    next
      case (Inr articles)
      with b [OF \<open>discover w limit = Inr urls\<close>] show ?thesis by simp
    qed
  qed
  from a b show ?thesis by blast
qed

theorem one_article_per_url_witness:
  "discover world_later 5 =
     Inr [''https://crypto.news/news/btc-up/'', ''https://crypto.news/news/eth-merge/'',
          ''https://crypto.news/news/sol-outage/''] \<and>
   (\<exists>articles. scrape_crypto_news world_later 5 = Inr articles \<and> length articles = 3 \<and>
      map url articles =
        [''https://crypto.news/news/btc-up/'', ''https://crypto.news/news/eth-merge/'',
         ''https://crypto.news/news/sol-outage/''] \<and>
      map title articles =
        [''Error fetching article'', ''Error fetching article'', ''Error fetching article''])"
proof -
  let ?urls = "[''https://crypto.news/news/btc-up/'', ''https://crypto.news/news/eth-merge/'',
          ''https://crypto.news/news/sol-outage/'']"
  let ?a = "\<lambda>u. \<lparr>url = u, title = ''Error fetching article'', summary = [],
                 content = ''Error: Connection refused'', date = [],
                 scraped_at = ''2025-01-01T00:00:00''\<rparr>"
  have d: "discover world_later 5 = Inr ?urls"
    by code_simp
  have s: "scrape_articles world_later 0 ?urls = Inr (map ?a ?urls)"
    by code_simp
  from one_article_per_url [of world_later 5] d s
  have "scrape_crypto_news world_later 5 = Inr (map ?a ?urls) \<and>
        length (map ?a ?urls) = length ?urls \<and> map url (map ?a ?urls) = ?urls"
    by blast
  with d show ?thesis by simp
qed

text \<open>
  C6, as stated, fails: a page with no latest section and a page whose latest section has
  no qualifying link end in the same exception.
\<close>

theorem discovery_failures_counterexample:
  "find_latest_section (BeautifulSoup page_no_section) = None \<and>
   find_latest_section (BeautifulSoup page_no_links) = Some section_no_links \<and>
   discover_urls (BeautifulSoup page_no_links) 3 = [] \<and>
   discover (world_of page_no_section) 3 = Inl not_found \<and>
   discover (world_of page_no_links) 3 = Inl not_found"
  by code_simp

text \<open>
  C6, amended. Discovery has one failure after the homepage is fetched, raised at line 111
  when the URL list is empty: either no strategy found a section, or the section gave no
  URL. Both cases raise the same exception; otherwise Discovery returns the list.
\<close>

theorem discovery_one_failure:
  assumes "fetch w base_url = Inr page"
  shows "(discover w limit = Inl not_found \<longleftrightarrow>
            find_latest_section (BeautifulSoup page) = None \<or>
            (\<exists>sec. find_latest_section (BeautifulSoup page) = Some sec \<and>
                   fst (scan_links limit [] (link_hrefs sec)) = [])) \<and>
         (\<forall>e. discover w limit = Inl e \<longrightarrow> e = not_found) \<and>
         (discover w limit \<noteq> Inl not_found \<longrightarrow>
            discover w limit = Inr (discover_urls (BeautifulSoup page) limit))"
  using discover_page [OF assms, of limit]
  by (auto simp: discover_urls_def split: option.splits if_splits)

theorem discovery_one_failure_witness:
  "fetch (world_of page_no_section) base_url = Inr page_no_section \<and>
   fetch (world_of page_no_links) base_url = Inr page_no_links \<and>
   find_latest_section (BeautifulSoup page_no_section) = None \<and>
   find_latest_section (BeautifulSoup page_no_links) = Some section_no_links \<and>
   discover (world_of page_no_section) 3 = Inl not_found \<and>
   discover (world_of page_no_links) 3 = Inl not_found"
proof -
  have f1: "fetch (world_of page_no_section) base_url = Inr page_no_section"
    by (simp add: world_of_def)
  have f2: "fetch (world_of page_no_links) base_url = Inr page_no_links"
    by (simp add: world_of_def)
  have r1: "find_latest_section (BeautifulSoup page_no_section) = None"
    by code_simp
  have r2: "find_latest_section (BeautifulSoup page_no_links) = Some section_no_links"
    by code_simp
  have e2: "fst (scan_links 3 [] (link_hrefs section_no_links)) = []"
    by code_simp
  from discovery_one_failure [OF f1, of 3] r1
  have d1: "discover (world_of page_no_section) 3 = Inl not_found" by blast
  from discovery_one_failure [OF f2, of 3] r2 e2
  have d2: "discover (world_of page_no_links) 3 = Inl not_found" by blast
  from f1 f2 r1 r2 d1 d2 show ?thesis by blast
qed

text \<open>
  C7. The record appended by the handler of lines 162-171 has as content \<open>Error: \<close>
  followed by the first 200 characters of the exception's text: the description kept is at
  most 200 characters long (the whole field at most 207), and it is the whole text when that
  is short enough. That record is what the iteration yields for every failure the handler
  catches.
\<close>

theorem error_content_truncated:
  assumes "fetch w u = Inl (Exception s)"
  shows "scrape_one w n u = Inr (error_article (Exception s) u (now w n)) \<and>
         content (error_article e u stamp) = ''Error: '' @ take 200 (str_of e) \<and>
         length (take 200 (str_of e)) \<le> 200 \<and>
         (length (str_of e) \<le> 200 \<longrightarrow> take 200 (str_of e) = str_of e) \<and>
         length (content (error_article e u stamp)) \<le> 207"
  using assms by (simp add: scrape_one_def error_article_def)

theorem error_content_truncated_witness:
  "fetch world_down ''https://crypto.news/news/btc-up/'' = Inl (Exception (replicate 250 CHR ''x'')) \<and>
   (\<exists>a. scrape_one world_down 0 ''https://crypto.news/news/btc-up/'' = Inr a \<and>
        content a = ''Error: '' @ replicate 200 CHR ''x'')"
proof -
  have f: "fetch world_down ''https://crypto.news/news/btc-up/'' = Inl (Exception (replicate 250 CHR ''x''))"
    by (simp add: world_down_def)
  from error_content_truncated [OF f, of 0 "Exception (replicate 250 CHR ''x'')" "now world_down 0"] f
  show ?thesis by simp
qed

text \<open>
  C8, as stated, fails on a heading made of several strings: \<open>get_text(strip=True)\<close>
  strips every string on its own, so the title is not the trimmed text of the heading.
\<close>

theorem extracted_fields_counterexample:
  "find_first (BeautifulSoup [heading_split]) [''h1''] = Some heading_split \<and>
   strip (get_text heading_split) = ''Bitcoin Hits'' \<and>
   title (extract_article (BeautifulSoup [heading_split]) ''https://crypto.news/news/btc-up/''
            ''2024-05-01T10:00:00'') = ''BitcoinHits''"
  by code_simp

text \<open>
  C8, amended. The title is the concatenation of the individually stripped strings of the
  first \<open>h1\<close> (empty if there is none), which is the trimmed text when the heading holds
  one string; the content joins with a blank line, in document order, that text of every
  \<open>p\<close> under the first \<open>article\<close> for which it is longer than 50 characters (empty
  if there is no \<open>article\<close> or no such paragraph). A page with the \<open>h1\<close>
  \<open>Bitcoin Hits $100K\<close> and no \<open>article\<close> gives that title and an empty content.
\<close>

theorem extracted_fields:
  "title (extract_article soup u stamp) =
     (case find_first soup [''h1''] of None \<Rightarrow> [] | Some h1 \<Rightarrow> get_text_strip h1) \<and>
   content (extract_article soup u stamp) =
     (case find_first soup [''article''] of
        None \<Rightarrow> []
      | Some article_tag \<Rightarrow>
          join [CHR 0x0A, CHR 0x0A]
            (filter (\<lambda>text. 50 < length text)
               (map get_text_strip (find_all article_tag [''p''])))) \<and>
   (\<forall>n s. all_strings n = [s] \<longrightarrow> get_text_strip n = strip (get_text n)) \<and>
   title (extract_article (BeautifulSoup page_title_only) u stamp) = ''Bitcoin Hits $100K'' \<and>
   content (extract_article (BeautifulSoup page_title_only) u stamp) = []"
proof -
  have t: "extract_title (BeautifulSoup page_title_only) = ''Bitcoin Hits $100K''"
    by code_simp
  have c: "extract_content (BeautifulSoup page_title_only) = []"
    by code_simp
  have a: "title (extract_article soup u stamp) =
     (case find_first soup [''h1''] of None \<Rightarrow> [] | Some h1 \<Rightarrow> get_text_strip h1)"
    by (simp add: extract_article_def extract_title_def)
  have b: "content (extract_article soup u stamp) =
     (case find_first soup [''article''] of
        None \<Rightarrow> []
      | Some article_tag \<Rightarrow>
          join [CHR 0x0A, CHR 0x0A]
            (filter (\<lambda>text. 50 < length text)
               (map get_text_strip (find_all article_tag [''p'']))))"
    by (simp add: extract_article_def extract_content_def content_parts_def split: option.splits)
  have d: "\<forall>n s. all_strings n = [s] \<longrightarrow> get_text_strip n = strip (get_text n)"
    by (simp add: get_text_strip_single)
  have e: "title (extract_article (BeautifulSoup page_title_only) u stamp) = ''Bitcoin Hits $100K''"
    using t by (simp add: extract_article_def)
  have f: "content (extract_article (BeautifulSoup page_title_only) u stamp) = []"
    using c by (simp add: extract_article_def)
  show ?thesis
    by (rule conjI [OF a conjI [OF b conjI [OF d conjI [OF e f]]]])
qed

theorem extracted_fields_witness:
  "title (extract_article (BeautifulSoup page_article) ''https://crypto.news/news/eth-merge/''
            ''2024-05-01T10:00:00'') = ''Ether merges'' \<and>
   content (extract_article (BeautifulSoup page_article) ''https://crypto.news/news/eth-merge/''
            ''2024-05-01T10:00:00'') = long_paragraph"
proof -
  have h: "find_first (BeautifulSoup page_article) [''h1'']
             = Some (Element ''h1'' [] [Text '' Ether merges ''])"
    by code_simp
  have g: "get_text_strip (Element ''h1'' [] [Text '' Ether merges '']) = ''Ether merges''"
    by code_simp
  have c: "(case find_first (BeautifulSoup page_article) [''article''] of
        None \<Rightarrow> []
      | Some article_tag \<Rightarrow>
          join [CHR 0x0A, CHR 0x0A]
            (filter (\<lambda>text. 50 < length text)
               (map get_text_strip (find_all article_tag [''p''])))) = long_paragraph"
    by code_simp
  from extracted_fields [of "BeautifulSoup page_article" "''https://crypto.news/news/eth-merge/''"
      "''2024-05-01T10:00:00''"] h g c
  show ?thesis by simp
qed

text \<open>
  C9. The result of Discovery depends on the homepage and on \<open>limit\<close> only: two runs
  that fetch the same homepage return the same list, whatever else differs between them
  (the clock, the article pages).
\<close>

theorem discovery_deterministic:
  assumes "fetch w1 base_url = Inr page" and "fetch w2 base_url = Inr page"
  shows "discover w1 limit = discover w2 limit"
  using assms by (simp add: discover_def)

theorem discovery_deterministic_witness:
  "fetch (world_of page_home) base_url = Inr page_home \<and>
   fetch world_later base_url = Inr page_home \<and>
   now (world_of page_home) 0 \<noteq> now world_later 0 \<and>
   discover (world_of page_home) 2 = discover world_later 2 \<and>
   discover world_later 2 =
     Inr [''https://crypto.news/news/btc-up/'', ''https://crypto.news/news/eth-merge/'']"
proof -
  have a: "fetch (world_of page_home) base_url = Inr page_home"
    by (simp add: world_of_def)
  have b: "fetch world_later base_url = Inr page_home"
    by (simp add: world_later_def)
  have c: "now (world_of page_home) 0 \<noteq> now world_later 0"
    by (simp add: world_of_def world_later_def)
  have d: "discover world_later 2 =
     Inr [''https://crypto.news/news/btc-up/'', ''https://crypto.news/news/eth-merge/'']"
    by code_simp
  from discovery_deterministic [OF a b, of 2] a b c d show ?thesis
    by simp
qed

end
